theory Spec2Isabelle
  imports Complex_Main
begin

section \<open>Data model\<close>

text \<open>
  The dashboard of \<^verbatim>\<open>src/app.py\<close> works on pandas Series of floats indexed by
  timestamps. Every series it touches comes out of \<^verbatim>\<open>fetch\<close>, which resamples to
  month starts, so every timestamp is a midnight: a timestamp is modelled as the number
  of days since 1970-01-01, and \<^verbatim>\<open>(dt - prev).days\<close> is the difference of two such
  numbers. A float is either NaN (pandas' missing value) or a number; numbers are
  idealised as reals, so the rounding of IEEE arithmetic is not modelled. A Series is the
  list of its (index, value) rows in positional order.
\<close>

type_synonym Timestamp = int

datatype float64 = NaN | Val real

type_synonym Series = "(Timestamp \<times> float64) list"

datatype py_error = ValueError | IndexError | ZeroDivisionError

definition index :: "Series \<Rightarrow> Timestamp list" where
  "index s = map fst s"

definition values_of :: "Series \<Rightarrow> float64 list" where
  "values_of s = map snd s"

fun isna :: "float64 \<Rightarrow> bool" where
  "isna NaN = True"
| "isna (Val x) = False"

text \<open>Float arithmetic and comparisons: NaN propagates through arithmetic, every
  ordering comparison with NaN is false, and \<^verbatim>\<open>NaN != c\<close> is true.\<close>

fun fsub :: "float64 \<Rightarrow> float64 \<Rightarrow> float64" where
  "fsub (Val a) (Val b) = Val (a - b)"
| "fsub a b = NaN"

fun fmul :: "float64 \<Rightarrow> float64 \<Rightarrow> float64" where
  "fmul (Val a) (Val b) = Val (a * b)"
| "fmul a b = NaN"

fun flt :: "float64 \<Rightarrow> real \<Rightarrow> bool" where
  "flt (Val a) c = (a < c)"
| "flt NaN c = False"

fun fle :: "float64 \<Rightarrow> real \<Rightarrow> bool" where
  "fle (Val a) c = (a \<le> c)"
| "fle NaN c = False"

fun fne :: "float64 \<Rightarrow> real \<Rightarrow> bool" where
  "fne (Val a) c = (a \<noteq> c)"
| "fne NaN c = True"

text \<open>Division: numpy answers a zero divisor with inf or nan and a RuntimeWarning. The
  model makes that event a value of its own, so that a guard which keeps it from
  happening is visible in the result type.\<close>

fun fdiv :: "float64 \<Rightarrow> float64 \<Rightarrow> py_error + float64" where
  "fdiv a (Val b) =
     (if b = 0 then Inl ZeroDivisionError
      else (case a of Val x \<Rightarrow> Inr (Val (x / b)) | NaN \<Rightarrow> Inr NaN))"
| "fdiv a NaN = Inr NaN"

section \<open>The pandas operations the code calls\<close>

text \<open>\<^verbatim>\<open>Series.diff()\<close>: row i holds value i minus value i-1; the first row holds
  NaN. \<open>diff_from prev\<close> walks the rows with the previous value at hand, and starting
  it from NaN gives the first row its NaN.\<close>

fun diff_from :: "float64 \<Rightarrow> Series \<Rightarrow> Series" where
  "diff_from prev [] = []"
| "diff_from prev ((t, v) # s) = (t, fsub v prev) # diff_from v s"

definition diff :: "Series \<Rightarrow> Series" where
  "diff s = diff_from NaN s"

definition dropna :: "Series \<Rightarrow> Series" where
  "dropna s = filter (\<lambda>(t, v). \<not> isna v) s"

text \<open>Boolean masks: \<^verbatim>\<open>delta < c\<close> and \<^verbatim>\<open>series.index > dt\<close> build one boolean per
  row, \<^verbatim>\<open>&\<close> combines two masks row by row, and \<^verbatim>\<open>series[mask]\<close> keeps the rows
  whose boolean is true.\<close>

definition lt_mask :: "Series \<Rightarrow> real \<Rightarrow> bool list" where
  "lt_mask s c = map (\<lambda>(t, v). flt v c) s"

definition index_gt :: "Series \<Rightarrow> Timestamp \<Rightarrow> bool list" where
  "index_gt s dt = map (\<lambda>t. t > dt) (index s)"

definition index_ge :: "Series \<Rightarrow> Timestamp \<Rightarrow> bool list" where
  "index_ge s dt = map (\<lambda>t. t \<ge> dt) (index s)"

definition index_le :: "Series \<Rightarrow> Timestamp \<Rightarrow> bool list" where
  "index_le s dt = map (\<lambda>t. t \<le> dt) (index s)"

definition mask_and :: "bool list \<Rightarrow> bool list \<Rightarrow> bool list" where
  "mask_and m1 m2 = map (\<lambda>(a, b). a \<and> b) (zip m1 m2)"

definition select :: "Series \<Rightarrow> bool list \<Rightarrow> Series" where
  "select s m = map fst (filter snd (zip s m))"

definition head :: "nat \<Rightarrow> Series \<Rightarrow> Series" where
  "head k s = take k s"

text \<open>A Python slice \<^verbatim>\<open>xs[start:]\<close>: a negative start counts from the end and is
  clamped at the front, a start beyond the end gives the empty list.\<close>

definition slice_from :: "int \<Rightarrow> 'a list \<Rightarrow> 'a list" where
  "slice_from start xs =
     (let len = int (length xs);
          st = (if start < 0 then max (start + len) 0 else min start len)
      in drop (nat st) xs)"

section \<open>Rate-cut cycle detection\<close>

text \<open>Lines 61-62 of \<^verbatim>\<open>find_cut_cycles\<close>: the cut months.\<close>

definition cut_months :: "Series \<Rightarrow> Timestamp list" where
  "cut_months fedfunds =
     (let delta = dropna (diff fedfunds)
      in index (select delta (lt_mask delta (- 0.05))))"

text \<open>Lines 65-69: the loop over the cut months, with its two variables \<^verbatim>\<open>prev\<close>
  (\<open>None\<close> before the first cut month) and \<^verbatim>\<open>cycles\<close>.\<close>

fun cycles_loop :: "Timestamp list \<Rightarrow> Timestamp option \<Rightarrow> Timestamp list \<Rightarrow> Timestamp list" where
  "cycles_loop [] prev cycles = cycles"
| "cycles_loop (dt # rest) prev cycles =
     cycles_loop rest (Some dt)
       (case prev of
          None \<Rightarrow> cycles @ [dt]
        | Some p \<Rightarrow> if dt - p > 180 then cycles @ [dt] else cycles)"

text \<open>All cycle starts the loop detects, before the final slice.\<close>

definition detected_cycles :: "Series \<Rightarrow> Timestamp list" where
  "detected_cycles fedfunds = cycles_loop (cut_months fedfunds) None []"

definition find_cut_cycles :: "Series \<Rightarrow> int \<Rightarrow> Timestamp list" where
  "find_cut_cycles fedfunds n =
     (if length (cut_months fedfunds) = 0 then []
      else slice_from (- n) (detected_cycles fedfunds))"

section \<open>Calendar arithmetic\<close>

text \<open>\<^verbatim>\<open>dt + pd.DateOffset(months=k)\<close> moves a timestamp by whole calendar months: the
  day of the month is kept and clamped to the length of the target month. The day count
  is converted to a civil date (proleptic Gregorian calendar) and back.\<close>

definition days_from_civil :: "int \<Rightarrow> int \<Rightarrow> int \<Rightarrow> Timestamp" where
  "days_from_civil y m d =
     (let y' = (if m \<le> 2 then y - 1 else y);
          era = y' div 400;
          yoe = y' - era * 400;
          doy = (153 * (if m > 2 then m - 3 else m + 9) + 2) div 5 + d - 1;
          doe = yoe * 365 + yoe div 4 - yoe div 100 + doy
      in era * 146097 + doe - 719468)"

definition civil_from_days :: "Timestamp \<Rightarrow> int \<times> int \<times> int" where
  "civil_from_days z =
     (let z' = z + 719468;
          era = z' div 146097;
          doe = z' - era * 146097;
          yoe = (doe - doe div 1460 + doe div 36524 - doe div 146096) div 365;
          doy = doe - (365 * yoe + yoe div 4 - yoe div 100);
          mp = (5 * doy + 2) div 153;
          d = doy - (153 * mp + 2) div 5 + 1;
          m = (if mp < 10 then mp + 3 else mp - 9);
          y = yoe + era * 400
      in (if m \<le> 2 then y + 1 else y, m, d))"

definition is_leap :: "int \<Rightarrow> bool" where
  "is_leap y = (y mod 4 = 0 \<and> (y mod 100 \<noteq> 0 \<or> y mod 400 = 0))"

definition days_in_month :: "int \<Rightarrow> int \<Rightarrow> int" where
  "days_in_month y m =
     (if m = 2 then (if is_leap y then 29 else 28)
      else if m = 4 \<or> m = 6 \<or> m = 9 \<or> m = 11 then 30 else 31)"

definition DateOffset_months :: "int \<Rightarrow> Timestamp \<Rightarrow> Timestamp" where
  "DateOffset_months k dt =
     (case civil_from_days dt of
        (y, m, d) \<Rightarrow>
          (let mm = y * 12 + (m - 1) + k;
               y' = mm div 12;
               m' = mm mod 12 + 1
           in days_from_civil y' m' (min d (days_in_month y' m'))))"

section \<open>Pass-through lag (tab 1)\<close>

text \<open>\<^verbatim>\<open>Series.asof(where)\<close> for a scalar, as pandas implements it: it refuses an
  index that is not monotonic increasing, reads \<^verbatim>\<open>self.index[0]\<close>, answers NaN when
  \<^verbatim>\<open>where\<close> lies before the first row, and otherwise takes the insertion point of
  \<^verbatim>\<open>where\<close> from the right, steps one row back and walks further back over NaN
  values (stopping at row 0 whatever it holds).\<close>

definition searchsorted_right :: "Timestamp list \<Rightarrow> Timestamp \<Rightarrow> nat" where
  "searchsorted_right idx w = length (takeWhile (\<lambda>t. t \<le> w) idx)"

fun asof_back :: "float64 list \<Rightarrow> nat \<Rightarrow> nat" where
  "asof_back vals 0 = 0"
| "asof_back vals (Suc k) = (if isna (vals ! Suc k) then asof_back vals k else Suc k)"

definition asof :: "Series \<Rightarrow> Timestamp \<Rightarrow> py_error + float64" where
  "asof s w =
     (if \<not> sorted (index s) then Inl ValueError
      else (case s of
              [] \<Rightarrow> Inl IndexError
            | (start, v0) # rest \<Rightarrow>
                if w < start then Inr NaN
                else (let loc = searchsorted_right (index s) w;
                          loc' = (if loc > 0 then loc - 1 else loc)
                      in Inr (values_of s ! asof_back (values_of s) loc'))))"

text \<open>The cell of the lag table: \<^verbatim>\<open>"n/a"\<close>, \<^verbatim>\<open>f"{idx} mo"\<close> or \<^verbatim>\<open>">24 mo"\<close>.\<close>

datatype lag = NotAvailable | Months nat | Over24

text \<open>\<^verbatim>\<open>next((j for j, v in enumerate(post.values) if not pd.isna(v) and (v - base) <= -0.25), None)\<close>,
  with the enumeration counter \<open>j\<close> carried along.\<close>

fun next_index :: "float64 list \<Rightarrow> float64 \<Rightarrow> nat \<Rightarrow> nat option" where
  "next_index [] base j = None"
| "next_index (v # vs) base j =
     (if \<not> isna v \<and> fle (fsub v base) (- 0.25) then Some j
      else next_index vs base (Suc j))"

text \<open>One pass of the inner loop of lines 166-183. \<open>None\<close> is the \<^verbatim>\<open>continue\<close> of an
  empty series: no row is appended.\<close>

definition lag_cell :: "Series \<Rightarrow> Timestamp \<Rightarrow> py_error + lag option" where
  "lag_cell series dt =
     (if series = [] then Inr None
      else (case asof series dt of
              Inl e \<Rightarrow> Inl e
            | Inr base \<Rightarrow>
                (let post = head 24 (select series (index_ge series dt))
                 in if isna base then Inr (Some NotAvailable)
                    else (case next_index (values_of post) base 0 of
                            Some idx \<Rightarrow> Inr (Some (Months idx))
                          | None \<Rightarrow> Inr (Some Over24)))))"

section \<open>Pre/post growth (tab 3)\<close>

text \<open>\<^verbatim>\<open>Series.mean()\<close> skips NaN values and answers NaN when nothing is left.\<close>

fun notna_values :: "float64 list \<Rightarrow> real list" where
  "notna_values [] = []"
| "notna_values (NaN # vs) = notna_values vs"
| "notna_values (Val x # vs) = x # notna_values vs"

definition mean :: "Series \<Rightarrow> float64" where
  "mean s =
     (let xs = notna_values (values_of s)
      in if xs = [] then NaN else Val (sum_list xs / real (length xs)))"

text \<open>One pass of the inner loop of lines 298-315. The result is the number \<^verbatim>\<open>pct\<close>
  of the appended row (the source formats it as \<^verbatim>\<open>f"{pct:+.1f}%"\<close>), or \<open>None\<close> when
  no row is appended.\<close>

definition growth_cell :: "Series \<Rightarrow> Timestamp \<Rightarrow> py_error + float64 option" where
  "growth_cell series dt =
     (if series = [] then Inr None
      else (let post = select series
                         (mask_and (index_gt series dt)
                                   (index_le series (DateOffset_months 12 dt)));
                pre = select series
                        (mask_and (index_gt series (DateOffset_months (- 12) dt))
                                  (index_le series dt))
            in if post \<noteq> [] \<and> pre \<noteq> [] \<and> fne (mean pre) 0
               then (case fdiv (fsub (mean post) (mean pre)) (mean pre) of
                       Inl e \<Rightarrow> Inl e
                     | Inr q \<Rightarrow> Inr (Some (fmul q (Val 100))))
               else Inr None))"

section \<open>The run of the script\<close>

text \<open>The two table loops walk \<^verbatim>\<open>enumerate(cut_dates)\<close> and, for each cycle, the named
  series in the order of the source. An exception ends the loop; a \<^verbatim>\<open>continue\<close> adds
  no row. A row keeps the cycle number \<open>i + 1\<close> and the date of its label, the series
  name and the cell.\<close>

fun collect :: "(py_error + 'a option) list \<Rightarrow> py_error + 'a list" where
  "collect [] = Inr []"
| "collect (Inl e # cs) = Inl e"
| "collect (Inr None # cs) = collect cs"
| "collect (Inr (Some x) # cs) =
     (case collect cs of Inl e \<Rightarrow> Inl e | Inr xs \<Rightarrow> Inr (x # xs))"

definition table_rows ::
  "(Series \<Rightarrow> Timestamp \<Rightarrow> py_error + 'c option) \<Rightarrow> Timestamp list \<Rightarrow>
   (string \<times> Series) list \<Rightarrow> py_error + (nat \<times> Timestamp \<times> string \<times> 'c) list" where
  "table_rows cell cut_dates named =
     collect (concat (map (\<lambda>(i, dt).
        map (\<lambda>(sname, series).
               (case cell series dt of
                  Inl e \<Rightarrow> Inl e
                | Inr None \<Rightarrow> Inr None
                | Inr (Some c) \<Rightarrow> Inr (Some (i + 1, dt, sname, c)))) named)
        (enumerate 0 cut_dates)))"

definition lag_rows ::
  "Timestamp list \<Rightarrow> Series \<Rightarrow> Series \<Rightarrow> py_error + (nat \<times> Timestamp \<times> string \<times> lag) list" where
  "lag_rows cut_dates mortgage dprime =
     table_rows lag_cell cut_dates
       [(''Mortgage (MORTGAGE30US)'', mortgage), (''Prime (DPRIME)'', dprime)]"

definition growth_rows ::
  "Timestamp list \<Rightarrow> Series \<Rightarrow> Series \<Rightarrow> py_error + (nat \<times> Timestamp \<times> string \<times> float64) list" where
  "growth_rows cut_dates rsxfs pce =
     table_rows growth_cell cut_dates [(''RSXFS'', rsxfs), (''PCE'', pce)]"

text \<open>The module level, lines 111-117 and the two tables: the fetched series are the
  inputs. With no cut dates the script reports the error and stops (\<^verbatim>\<open>st.stop()\<close>);
  otherwise it builds the lag table and then the growth table.\<close>

datatype outcome =
    NoCycles
  | Tables "(nat \<times> Timestamp \<times> string \<times> lag) list" "(nat \<times> Timestamp \<times> string \<times> float64) list"

definition dashboard ::
  "Series \<Rightarrow> Series \<Rightarrow> Series \<Rightarrow> Series \<Rightarrow> Series \<Rightarrow> py_error + outcome" where
  "dashboard fedfunds mortgage dprime rsxfs pce =
     (let cut_dates = find_cut_cycles fedfunds 3
      in if cut_dates = [] then Inr NoCycles
         else (case lag_rows cut_dates mortgage dprime of
                 Inl e \<Rightarrow> Inl e
               | Inr lr \<Rightarrow>
                   (case growth_rows cut_dates rsxfs pce of
                      Inl e \<Rightarrow> Inl e
                    | Inr gr \<Rightarrow> Inr (Tables lr gr))))"

section \<open>The specification's wording\<close>

text \<open>The definitions of this section follow the sentences of the specification, not the
  code; the theorems below compare the two.\<close>

text \<open>Cut months: the timestamps, from the second observation on, whose month-over-month
  difference is strictly below the drop threshold.\<close>

definition spec_cut_months :: "Series \<Rightarrow> Timestamp list" where
  "spec_cut_months s =
     map (\<lambda>i. fst (s ! i))
       (filter (\<lambda>i. flt (fsub (snd (s ! i)) (snd (s ! (i - 1)))) (- 0.05)) [1..<length s])"

text \<open>Cycle starts: a cut month opens a cycle when it is the first one or lies more than
  180 days after the cut month before it.\<close>

definition spec_cycles :: "Timestamp list \<Rightarrow> Timestamp list" where
  "spec_cycles cm =
     map (\<lambda>k. cm ! k) (filter (\<lambda>k. k = 0 \<or> cm ! k - cm ! (k - 1) > 180) [0..<length cm])"

text \<open>Lag: the base is the last observed (non-missing) value at or before the cycle
  start; the window holds the first 24 observations on or after it; a value qualifies
  when it is present and lies at least 0.25 below the base.\<close>

definition spec_base :: "Series \<Rightarrow> Timestamp \<Rightarrow> real option" where
  "spec_base s cycleStart =
     (case notna_values (values_of (filter (\<lambda>(t, v). t \<le> cycleStart) s)) of
        [] \<Rightarrow> None
      | x # xs \<Rightarrow> Some (last (x # xs)))"

definition spec_window :: "Series \<Rightarrow> Timestamp \<Rightarrow> float64 list" where
  "spec_window s cycleStart = take 24 (values_of (filter (\<lambda>(t, v). cycleStart \<le> t) s))"

fun qualifies :: "real \<Rightarrow> float64 \<Rightarrow> bool" where
  "qualifies base NaN = False"
| "qualifies base (Val x) = (x - base \<le> - 0.25)"

definition spec_lag :: "Series \<Rightarrow> Timestamp \<Rightarrow> lag" where
  "spec_lag s cycleStart =
     (case spec_base s cycleStart of
        None \<Rightarrow> NotAvailable
      | Some base \<Rightarrow>
          if list_ex (qualifies base) (spec_window s cycleStart)
          then Months (length (takeWhile (\<lambda>v. \<not> qualifies base v) (spec_window s cycleStart)))
          else Over24)"

text \<open>Growth: the two windows of twelve calendar months, and the signed percentage.\<close>

definition spec_pre :: "Series \<Rightarrow> Timestamp \<Rightarrow> Series" where
  "spec_pre s cycleStart =
     filter (\<lambda>(t, v). DateOffset_months (- 12) cycleStart < t \<and> t \<le> cycleStart) s"

definition spec_post :: "Series \<Rightarrow> Timestamp \<Rightarrow> Series" where
  "spec_post s cycleStart =
     filter (\<lambda>(t, v). cycleStart < t \<and> t \<le> DateOffset_months 12 cycleStart) s"

fun percent_change :: "float64 \<Rightarrow> float64 \<Rightarrow> float64" where
  "percent_change (Val post_mean) (Val pre_mean) = Val ((post_mean - pre_mean) / pre_mean * 100)"
| "percent_change a b = NaN"

section \<open>Definitions used in the proofs\<close>

text \<open>Whether position \<open>k\<close> of the cut months opens a cycle when the loop is entered with
  \<open>prev\<close>; used to state the loop's result for any entry state.\<close>

definition opens :: "Timestamp option \<Rightarrow> Timestamp list \<Rightarrow> nat \<Rightarrow> bool" where
  "opens prev cm k =
     (if k = 0 then (case prev of None \<Rightarrow> True | Some p \<Rightarrow> cm ! 0 - p > 180)
      else cm ! k - cm ! (k - 1) > 180)"

text \<open>The last present value of a list of floats, NaN when every value is missing.\<close>

definition last_present :: "float64 list \<Rightarrow> float64" where
  "last_present vs = (if notna_values vs = [] then NaN else Val (last (notna_values vs)))"

section \<open>Example series\<close>

text \<open>A policy-rate series with four easing episodes: cuts at days 31 to 120, cuts
  at days 400 and 430, a cut at day 700 and a cut at day 1000.\<close>

definition rates_example :: Series where
  "rates_example =
     [(0, Val 5.0), (31, Val 4.9), (59, Val 4.8), (90, Val 4.2), (120, Val 4.1),
      (151, Val 4.1), (400, Val 3.5), (430, Val 3.2), (700, Val 3), (1000, Val 2),
      (1030, Val 2.5)]"

text \<open>Two spending series around the cycle start 2001-01-01 (day 11323). The first
  has an observation exactly twelve months before the cycle start (2000-01-01, day 10957,
  outside the pre window) and one exactly twelve months after it (2002-01-01, day 11688,
  inside the post window). The pre window of the second has mean zero.\<close>

definition growth_example :: Series where
  "growth_example =
     [(10957, Val 50), (11292, Val 100), (11323, Val 100), (11354, Val 105), (11688, Val 115),
      (11719, Val 500)]"

definition zero_base_example :: Series where
  "zero_base_example = [(11292, Val (- 5)), (11323, Val 5), (11354, Val 105), (11688, Val 115)]"

text \<open>A lending-rate series that falls by 0.1 a month from 6.5.\<close>

definition lag_example :: Series where
  "lag_example = [(0, Val 6.5), (31, Val 6.4), (59, Val 6.3), (90, Val 6.2)]"

section \<open>Auxiliary lemmas\<close>

lemma select_map: "select s (map P s) = filter P s"
  by (induction s) (auto simp: select_def)

lemma index_diff_from: "index (diff_from p s) = index s"
  by (induction p s rule: diff_from.induct) (auto simp: index_def)

lemma length_diff_from: "length (diff_from p s) = length s"
  by (induction p s rule: diff_from.induct) auto

lemma nth_diff_from:
  "i < length s \<Longrightarrow>
   diff_from p s ! i = (fst (s ! i), fsub (snd (s ! i)) (if i = 0 then p else snd (s ! (i - 1))))"
proof (induction p s arbitrary: i rule: diff_from.induct)
  case (1 prev)
  then show ?case by simp
next
  case (2 prev t v s)
  show ?case
  proof (cases i)
    case 0
    then show ?thesis by simp
  next
    case (Suc j)
    with 2 show ?thesis by (cases j) auto
  qed
qed

lemma fsub_NaN: "fsub v NaN = NaN"
  by (cases v) auto

lemma cut_months_filter:
  "cut_months s = map fst (filter (\<lambda>(t, d). flt d (- 0.05)) (diff s))"
proof -
  have "filter (\<lambda>(t, d). flt d (- 0.05)) (filter (\<lambda>(t, v). \<not> isna v) xs) =
        filter (\<lambda>(t, d). flt d (- 0.05)) xs" for xs :: Series
    by (induction xs) (auto elim: flt.elims)
  then show ?thesis
    by (simp add: cut_months_def Let_def lt_mask_def select_map dropna_def index_def)
qed

lemma filter_as_indices:
  "filter P xs = map (\<lambda>i. xs ! i) (filter (\<lambda>i. P (xs ! i)) [0..<length xs])"
proof -
  have "filter P (map (nth xs) [0..<length xs]) = map (nth xs) (filter (P \<circ> nth xs) [0..<length xs])"
    by (rule filter_map)
  then show ?thesis by (simp add: map_nth comp_def)
qed

lemma cut_months_spec: "cut_months s = spec_cut_months s"
proof -
  let ?Q = "\<lambda>i. flt (fsub (snd (s ! i)) (if i = 0 then NaN else snd (s ! (i - 1)))) (- 0.05)"
  have "filter (\<lambda>i. (\<lambda>(t, d). flt d (- 0.05)) (diff s ! i)) [0..<length s] = filter ?Q [0..<length s]"
    by (rule filter_cong) (auto simp: diff_def nth_diff_from)
  moreover have "map (\<lambda>i. fst (diff s ! i)) (filter ?Q [0..<length s]) =
      map (\<lambda>i. fst (s ! i)) (filter ?Q [0..<length s])"
    by (rule map_cong) (auto simp: diff_def nth_diff_from)
  ultimately have "cut_months s = map (\<lambda>i. fst (s ! i)) (filter ?Q [0..<length s])"
    unfolding cut_months_filter
    by (subst filter_as_indices) (simp add: diff_def length_diff_from comp_def)
  also have "filter ?Q [0..<length s] = filter ?Q [1..<length s]"
  proof (cases "length s")
    case 0
    then show ?thesis by simp
  next
    case (Suc n)
    have "[0..<length s] = 0 # [1..<length s]"
      using Suc by (simp add: upt_conv_Cons)
    then show ?thesis by simp
  qed
  also have "\<dots> = filter (\<lambda>i. flt (fsub (snd (s ! i)) (snd (s ! (i - 1)))) (- 0.05)) [1..<length s]"
    by (rule filter_cong) auto
  finally show ?thesis
    by (simp add: spec_cut_months_def)
qed

lemma cycles_loop_acc: "cycles_loop cm prev acc = acc @ cycles_loop cm prev []"
proof (induction cm arbitrary: prev acc)
  case Nil
  then show ?case by simp
next
  case (Cons dt rest)
  have "cycles_loop (dt # rest) prev acc =
        cycles_loop rest (Some dt)
         (case prev of None \<Rightarrow> acc @ [dt] | Some p \<Rightarrow> if dt - p > 180 then acc @ [dt] else acc)"
    by simp
  also have "\<dots> = (case prev of None \<Rightarrow> acc @ [dt] | Some p \<Rightarrow> if dt - p > 180 then acc @ [dt] else acc)
       @ cycles_loop rest (Some dt) []"
    by (rule Cons.IH)
  also have "\<dots> = acc @ (case prev of None \<Rightarrow> [dt] | Some p \<Rightarrow> if dt - p > 180 then [dt] else [])
       @ cycles_loop rest (Some dt) []"
    by (simp split: option.splits)
  also have "(case prev of None \<Rightarrow> [dt] | Some p \<Rightarrow> if dt - p > 180 then [dt] else [])
       @ cycles_loop rest (Some dt) [] =
     cycles_loop rest (Some dt) ([] @ (case prev of None \<Rightarrow> [dt] | Some p \<Rightarrow> if dt - p > 180 then [dt] else []))"
    by (subst Cons.IH) simp
  also have "\<dots> = cycles_loop (dt # rest) prev []"
    by (simp split: option.splits)
  finally show ?case .
qed

lemma cycles_loop_append:
  "cycles_loop (xs @ ys) prev acc =
   cycles_loop ys (if xs = [] then prev else Some (last xs)) (cycles_loop xs prev acc)"
  by (induction xs arbitrary: prev acc) auto

lemma cycles_loop_Cons_None:
  "cycles_loop (dt # rest) None [] = dt # cycles_loop rest (Some dt) []"
  using cycles_loop_acc[of rest "Some dt" "[dt]"] by simp

lemma cycles_loop_Cons_Some:
  "cycles_loop (dt # rest) (Some p) [] =
     (if dt - p > 180 then dt # cycles_loop rest (Some dt) [] else cycles_loop rest (Some dt) [])"
  using cycles_loop_acc[of rest "Some dt" "[dt]"] by simp

lemma cycles_loop_indices:
  "cycles_loop cm prev [] = map (\<lambda>k. cm ! k) (filter (opens prev cm) [0..<length cm])"
proof (induction cm arbitrary: prev)
  case Nil
  then show ?case by simp
next
  case (Cons dt rest)
  have upt: "[0..<length (dt # rest)] = 0 # map Suc [0..<length rest]"
    by (simp add: upt_conv_Cons map_Suc_upt del: upt_Suc)
  have shift: "opens prev (dt # rest) (Suc j) = opens (Some dt) rest j" for j
    by (cases j) (simp_all add: opens_def)
  have tail: "map (\<lambda>k. (dt # rest) ! k) (filter (opens prev (dt # rest)) (map Suc [0..<length rest])) =
        cycles_loop rest (Some dt) []"
    unfolding Cons.IH by (simp add: filter_map comp_def shift)
  have first: "opens prev (dt # rest) 0 = (case prev of None \<Rightarrow> True | Some p \<Rightarrow> dt - p > 180)"
    by (simp add: opens_def split: option.splits)
  show ?case
    using tail first unfolding upt
    by (cases prev)
      (simp_all add: cycles_loop_Cons_None cycles_loop_Cons_Some del: cycles_loop.simps)
qed

lemma detected_spec: "cycles_loop cm None [] = spec_cycles cm"
proof -
  have "filter (opens None cm) [0..<length cm] =
        filter (\<lambda>k. k = 0 \<or> cm ! k - cm ! (k - 1) > 180) [0..<length cm]"
    by (rule filter_cong) (auto simp: opens_def)
  then show ?thesis
    by (simp add: cycles_loop_indices spec_cycles_def)
qed

lemma cycles_loop_quiet:
  "\<forall>i. Suc i < length (p # run) \<longrightarrow> (p # run) ! Suc i - (p # run) ! i \<le> 180 \<Longrightarrow>
   cycles_loop run (Some p) [] = []"
proof (induction run arbitrary: p)
  case Nil
  then show ?case by simp
next
  case (Cons dt rest)
  from Cons.prems have "dt - p \<le> 180" by (auto dest: spec[of _ 0])
  moreover have "\<forall>i. Suc i < length (dt # rest) \<longrightarrow> (dt # rest) ! Suc i - (dt # rest) ! i \<le> 180"
    using Cons.prems by (auto dest: spec[of _ "Suc i" for i])
  ultimately show ?case
    using Cons.IH[of dt] by (simp add: cycles_loop_Cons_Some del: cycles_loop.simps)
qed

lemma sorted_cut_months: "sorted (index s) \<Longrightarrow> sorted (cut_months s)"
  unfolding cut_months_filter
  by (rule sorted_filter) (simp add: diff_def index_diff_from[unfolded index_def] index_def)

lemma cycles_loop_gaps:
  "sorted (p # cm) \<Longrightarrow>
   sorted_wrt (\<lambda>a b. b - a > 180) (cycles_loop cm (Some p) []) \<and>
   (\<forall>e \<in> set (cycles_loop cm (Some p) []). e - p > 180)"
proof (induction cm arbitrary: p)
  case Nil
  then show ?case by simp
next
  case (Cons dt rest)
  from Cons.prems have "p \<le> dt" and "sorted (dt # rest)" by simp_all
  from Cons.IH[OF this(2)] \<open>p \<le> dt\<close> show ?case
    by (auto simp: cycles_loop_Cons_Some simp del: cycles_loop.simps)
qed

lemma detected_gaps:
  assumes "sorted (index s)"
  shows "sorted_wrt (\<lambda>a b. b - a > 180) (detected_cycles s)"
proof (cases "cut_months s")
  case Nil
  then show ?thesis by (simp add: detected_cycles_def)
next
  case (Cons dt rest)
  with sorted_cut_months[OF assms] have "sorted (dt # rest)" by simp
  from cycles_loop_gaps[OF this] show ?thesis
    by (simp add: detected_cycles_def Cons cycles_loop_Cons_None del: cycles_loop.simps)
qed

lemma slice_from_drop: "\<exists>k. slice_from start xs = drop k xs"
  by (auto simp: slice_from_def Let_def)

lemma find_cut_cycles_slice: "find_cut_cycles s n = slice_from (- n) (detected_cycles s)"
  by (simp add: find_cut_cycles_def detected_cycles_def slice_from_def)

lemma slice_last_n:
  "1 \<le> n \<Longrightarrow> slice_from (- n) xs = drop (length xs - nat n) xs"
  by (auto simp: slice_from_def Let_def max_def nat_diff_distrib intro: arg_cong[where f="\<lambda>k. drop k xs"])

lemma gaps_increasing:
  "sorted_wrt (\<lambda>a b. b - a > 180) (r :: int list) \<Longrightarrow> sorted_wrt (<) r"
  by (erule sorted_wrt_mono_rel[rotated]) simp

lemma tl_spec_cycles: "tl (spec_cycles (p # later)) = cycles_loop later (Some p) []"
  by (simp add: detected_spec[symmetric] cycles_loop_Cons_None del: cycles_loop.simps)

lemma detected_run:
  assumes cm: "cm = earlier @ run @ later" and ne: "run \<noteq> []"
    and start: "earlier = [] \<or> hd run - last earlier > 180"
    and close: "\<forall>i. Suc i < length run \<longrightarrow> run ! Suc i - run ! i \<le> 180"
  shows "cycles_loop cm None [] = spec_cycles earlier @ hd run # tl (spec_cycles (last run # later))"
proof -
  obtain r rs where run: "run = r # rs" using ne by (cases run) auto
  let ?p = "if earlier = [] then None else Some (last earlier)"
  have quiet: "cycles_loop rs (Some r) [] = []"
    using close unfolding run by (rule cycles_loop_quiet)
  have "cycles_loop run ?p [] = [r]"
    using start quiet unfolding run
    by (auto simp: cycles_loop_Cons_None cycles_loop_Cons_Some simp del: cycles_loop.simps)
  then have "cycles_loop (run @ later) ?p [] = r # cycles_loop later (Some (last run)) []"
    using ne cycles_loop_acc[of later "Some (last run)" "[r]"]
    by (simp add: cycles_loop_append del: cycles_loop.simps)
  moreover have "cycles_loop cm None [] = cycles_loop earlier None [] @ cycles_loop (run @ later) ?p []"
    unfolding cm cycles_loop_append[of earlier] 
    by (rule cycles_loop_acc)
  ultimately show ?thesis
    by (simp add: tl_spec_cycles detected_spec run del: cycles_loop.simps)
qed

lemma window_select:
  "select s (mask_and (index_gt s a) (index_le s b)) = filter (\<lambda>(t, v). a < t \<and> t \<le> b) s"
proof -
  have "mask_and (index_gt s a) (index_le s b) = map (\<lambda>(t, v). a < t \<and> t \<le> b) s"
    by (induction s) (auto simp: mask_and_def index_gt_def index_le_def index_def)
  then show ?thesis by (simp add: select_map)
qed

lemma fne_zero: "fne m 0 \<longleftrightarrow> m \<noteq> Val 0"
  by (cases m) auto

lemma percent_change_code:
  "m \<noteq> Val 0 \<Longrightarrow>
   (case fdiv (fsub p m) m of Inl e \<Rightarrow> Inl e | Inr q \<Rightarrow> Inr (Some (fmul q (Val 100)))) =
   Inr (Some (percent_change p m))"
  by (cases p; cases m) auto

lemma growth_cell_spec:
  "growth_cell s dt =
     Inr (if spec_pre s dt = [] \<or> spec_post s dt = [] \<or> mean (spec_pre s dt) = Val 0 then None
          else Some (percent_change (mean (spec_post s dt)) (mean (spec_pre s dt))))"
proof (cases "s = []")
  case True
  then show ?thesis by (simp add: growth_cell_def spec_pre_def)
next
  case False
  then show ?thesis
    unfolding growth_cell_def Let_def window_select
    by (auto simp: spec_pre_def[symmetric] spec_post_def[symmetric] fne_zero percent_change_code)
qed

lemma ge_select: "select s (index_ge s dt) = filter (\<lambda>(t, v). dt \<le> t) s"
proof -
  have "index_ge s dt = map (\<lambda>(t, v). dt \<le> t) s"
    by (simp add: index_ge_def index_def case_prod_unfold)
  then show ?thesis by (simp add: select_map)
qed

lemma post_values: "values_of (head 24 (select s (index_ge s dt))) = spec_window s dt"
  by (simp add: ge_select head_def spec_window_def values_of_def take_map)

lemma qualifies_code: "(\<not> isna v \<and> fle (fsub v (Val b)) (- 0.25)) = qualifies b v"
  by (cases v) auto

lemma next_index_takeWhile:
  "next_index vs (Val b) j =
     (if list_ex (qualifies b) vs
      then Some (j + length (takeWhile (\<lambda>v. \<not> qualifies b v) vs)) else None)"
proof (induction vs arbitrary: j)
  case Nil
  then show ?case by simp
next
  case (Cons v vs)
  then show ?case by (cases v) simp_all
qed

lemma sorted_takeWhile_filter:
  "sorted (map fst s) \<Longrightarrow>
   takeWhile (\<lambda>(t, v). t \<le> w) s = filter (\<lambda>(t, v). t \<le> (w :: int)) s"
proof (induction s)
  case Nil
  then show ?case by simp
next
  case (Cons r s)
  obtain t v where r: "r = (t, v)" by (cases r)
  show ?case
  proof (cases "t \<le> w")
    case True
    with Cons r show ?thesis by simp
  next
    case False
    with Cons.prems r have "\<forall>x \<in> set s. \<not> fst x \<le> w" by auto
    then have "filter (\<lambda>(t, v). t \<le> w) s = []"
      by (auto simp: filter_empty_conv)
    with False r show ?thesis by simp
  qed
qed

lemma searchsorted_take:
  assumes "sorted (index s)"
  shows "take (searchsorted_right (index s) w) s = filter (\<lambda>(t, v). t \<le> w) s"
proof -
  have "searchsorted_right (index s) w = length (takeWhile (\<lambda>(t, v). t \<le> w) s)"
    by (simp add: searchsorted_right_def index_def takeWhile_map comp_def case_prod_unfold)
  then have "take (searchsorted_right (index s) w) s = takeWhile (\<lambda>(t, v). t \<le> w) s"
    by (simp add: takeWhile_eq_take[symmetric])
  then show ?thesis
    using sorted_takeWhile_filter[of s w] assms by (simp add: index_def)
qed

lemma notna_values_append: "notna_values (xs @ ys) = notna_values xs @ notna_values ys"
  by (induction xs rule: notna_values.induct) auto

lemma last_present_snoc:
  "last_present (vs @ [v]) = (if isna v then last_present vs else v)"
  by (cases v) (simp_all add: last_present_def notna_values_append)

lemma asof_back_last:
  "k < length vals \<Longrightarrow> vals ! asof_back vals k = last_present (take (Suc k) vals)"
proof (induction k)
  case 0
  then obtain v vs where "vals = v # vs" by (cases vals) auto
  then show ?case by (cases v) (auto simp: last_present_def)
next
  case (Suc k)
  then have "take (Suc (Suc k)) vals = take (Suc k) vals @ [vals ! Suc k]"
    by (simp add: take_Suc_conv_app_nth)
  with Suc show ?case
    by (simp add: last_present_snoc del: take_Suc)
qed

lemma asof_spec:
  assumes ne: "s \<noteq> []" and chrono: "sorted (index s)"
  shows "asof s w = Inr (case spec_base s w of None \<Rightarrow> NaN | Some b \<Rightarrow> Val b)"
proof -
  obtain start v0 rest where s: "s = (start, v0) # rest"
    using ne by (cases s) auto
  have base: "(case spec_base s w of None \<Rightarrow> NaN | Some b \<Rightarrow> Val b) =
      last_present (values_of (filter (\<lambda>(t, v). t \<le> w) s))"
    by (simp add: spec_base_def last_present_def split: list.splits)
  show ?thesis
  proof (cases "w < start")
    case True
    with chrono s have "\<forall>x \<in> set s. \<not> fst x \<le> w" by (auto simp: index_def)
    then have "filter (\<lambda>(t, v). t \<le> w) s = []"
      by (auto simp: filter_empty_conv)
    with True chrono s show ?thesis
      by (simp add: asof_def spec_base_def values_of_def)
  next
    case False
    let ?loc = "searchsorted_right (index s) w"
    have pos: "0 < ?loc"
      using False s by (simp add: searchsorted_right_def index_def)
    have le: "?loc \<le> length s"
      using length_takeWhile_le[of "\<lambda>t. t \<le> w" "index s"]
      by (simp add: searchsorted_right_def index_def)
    from pos le have lt: "?loc - 1 < length (values_of s)"
      by (simp add: values_of_def)
    have "values_of s ! asof_back (values_of s) (?loc - 1) =
          last_present (take ?loc (values_of s))"
      using asof_back_last[OF lt] pos by simp
    also have "take ?loc (values_of s) = values_of (filter (\<lambda>(t, v). t \<le> w) s)"
      using searchsorted_take[OF chrono, of w] by (simp add: values_of_def take_map)
    finally have "values_of s ! asof_back (values_of s) (?loc - 1) =
        (case spec_base s w of None \<Rightarrow> NaN | Some b \<Rightarrow> Val b)"
      by (simp add: base)
    moreover have "asof s w = Inr (values_of s ! asof_back (values_of s) (?loc - 1))"
      using False chrono pos unfolding s asof_def Let_def
      by (simp del: asof_back.simps)
    ultimately show ?thesis by simp
  qed
qed

lemma lag_cell_spec:
  assumes "s \<noteq> []" and "sorted (index s)"
  shows "lag_cell s dt = Inr (Some (spec_lag s dt))"
  using assms
  by (simp add: lag_cell_def asof_spec post_values Let_def next_index_takeWhile spec_lag_def
      split: option.splits)

lemma next_index_range:
  "next_index vs base j0 = Some j \<Longrightarrow> j0 \<le> j \<and> j < j0 + length vs"
proof (induction vs arbitrary: j0)
  case Nil
  then show ?case by simp
next
  case (Cons v vs)
  show ?case
  proof (cases "\<not> isna v \<and> fle (fsub v base) (- 0.25)")
    case True
    with Cons.prems show ?thesis by simp
  next
    case False
    with Cons.prems have "next_index vs base (Suc j0) = Some j" by auto
    from Cons.IH[OF this] show ?thesis by simp
  qed
qed

lemma next_index_present:
  "next_index vs base j0 = Some j \<Longrightarrow>
   \<not> isna (vs ! (j - j0)) \<and> fle (fsub (vs ! (j - j0)) base) (- 0.25)"
proof (induction vs arbitrary: j0)
  case Nil
  then show ?case by simp
next
  case (Cons v vs)
  show ?case
  proof (cases "\<not> isna v \<and> fle (fsub v base) (- 0.25)")
    case True
    with Cons.prems show ?thesis by simp
  next
    case False
    with Cons.prems have n: "next_index vs base (Suc j0) = Some j" by auto
    from next_index_range[OF n] have "j - j0 = Suc (j - Suc j0)" by arith
    with Cons.IH[OF n] show ?thesis by simp
  qed
qed

lemma lag_cell_months:
  assumes "lag_cell s dt = Inr (Some (Months j))"
  shows "\<exists>base. asof s dt = Inr base \<and> \<not> isna base \<and> next_index (spec_window s dt) base 0 = Some j"
  using assms
  by (auto simp: lag_cell_def Let_def post_values split: if_splits sum.splits option.splits)

lemma months_below_24:
  assumes "lag_cell s dt = Inr (Some (Months j))"
  shows "j < 24"
proof -
  from lag_cell_months[OF assms] obtain base where
    "next_index (spec_window s dt) base 0 = Some j" by blast
  from next_index_range[OF this] have "j < length (spec_window s dt)" by simp
  then show ?thesis by (simp add: spec_window_def)
qed

lemma strict_split:
  assumes strict: "sorted_wrt (<) (index s)" and mem: "(dt, x) \<in> set s"
  shows "\<exists>before after. s = before @ (dt, x) # after \<and>
           filter (\<lambda>(t, v). t \<le> dt) s = before @ [(dt, x)] \<and>
           filter (\<lambda>(t, v). dt \<le> t) s = (dt, x) # after"
proof -
  from mem obtain before after where s: "s = before @ (dt, x) # after"
    by (auto dest: split_list)
  from strict have lo: "\<forall>r \<in> set before. fst r < dt" and hi: "\<forall>r \<in> set after. dt < fst r"
    unfolding s index_def by (auto simp: sorted_wrt_append)
  have "filter (\<lambda>(t, v). t \<le> dt) before = before" "filter (\<lambda>(t, v). dt \<le> t) before = []"
    using lo by (auto simp: filter_empty_conv filter_id_conv)
  moreover have "filter (\<lambda>(t, v). t \<le> dt) after = []" "filter (\<lambda>(t, v). dt \<le> t) after = after"
    using hi by (auto simp: filter_empty_conv filter_id_conv)
  ultimately show ?thesis unfolding s by auto
qed

lemma strict_sorted_index: "sorted_wrt (<) (index s) \<Longrightarrow> sorted (index s)"
  by (erule sorted_wrt_mono_rel[rotated]) simp

lemma spec_lag_zero:
  "spec_lag s dt = Months 0 \<Longrightarrow>
   \<exists>b w rest. spec_base s dt = Some b \<and> spec_window s dt = w # rest \<and> qualifies b w"
proof -
  assume z: "spec_lag s dt = Months 0"
  then obtain b where b: "spec_base s dt = Some b"
    by (auto simp: spec_lag_def split: option.splits)
  with z have ex: "list_ex (qualifies b) (spec_window s dt)"
    and tw: "takeWhile (\<lambda>v. \<not> qualifies b v) (spec_window s dt) = []"
    by (auto simp: spec_lag_def split: if_splits)
  from ex obtain w rest where w: "spec_window s dt = w # rest"
    by (cases "spec_window s dt") auto
  with tw have "qualifies b w" by (auto split: if_splits)
  with b w show ?thesis by blast
qed

lemma spec_base_last:
  "spec_base s w =
     (if notna_values (values_of (filter (\<lambda>(t, v). t \<le> w) s)) = [] then None
      else Some (last (notna_values (values_of (filter (\<lambda>(t, v). t \<le> w) s)))))"
  by (simp add: spec_base_def split: list.splits)

lemma base_at_observation:
  assumes strict: "sorted_wrt (<) (index s)" and mem: "(dt, Val v) \<in> set s"
  shows "spec_base s dt = Some v"
proof -
  from strict_split[OF strict mem] obtain before where
    "filter (\<lambda>(t, v). t \<le> dt) s = before @ [(dt, Val v)]" by blast
  then show ?thesis
    by (simp add: spec_base_last values_of_def notna_values_append)
qed

lemma takeWhile_take: "takeWhile P (take n xs) = take n (takeWhile P xs)"
proof (induction xs arbitrary: n)
  case Nil
  then show ?case by simp
next
  case (Cons x xs)
  then show ?case by (cases n) simp_all
qed

lemma list_ex_first: "list_ex Q xs \<longleftrightarrow> length (takeWhile (\<lambda>x. \<not> Q x) xs) < length xs"
proof (induction xs)
  case Nil
  then show ?case by simp
next
  case (Cons x xs)
  then show ?case by (cases "Q x") simp_all
qed

lemma prefix_all_pass:
  "length xs \<le> length (takeWhile P (xs @ ys)) \<Longrightarrow> \<forall>x \<in> set xs. P x"
proof (induction xs)
  case Nil
  then show ?case by simp
next
  case (Cons x xs)
  show ?case
  proof (cases "P x")
    case True
    with Cons.prems have "length xs \<le> length (takeWhile P (xs @ ys))"
      by (simp del: takeWhile_append1 takeWhile_append2)
    from Cons.IH[OF this] True show ?thesis by simp
  next
    case False
    with Cons.prems show ?thesis
      by (simp del: takeWhile_append1 takeWhile_append2)
  qed
qed

lemma list_ex_take:
  "list_ex Q (take n l) \<longleftrightarrow>
     length (takeWhile (\<lambda>x. \<not> Q x) l) < n \<and> length (takeWhile (\<lambda>x. \<not> Q x) l) < length l"
proof -
  define f where "f = length (takeWhile (\<lambda>x. \<not> Q x) l)"
  have le: "f \<le> length l"
    unfolding f_def by (rule length_takeWhile_le)
  have "list_ex Q (take n l) \<longleftrightarrow>
      length (take n (takeWhile (\<lambda>x. \<not> Q x) l)) < length (take n l)"
    unfolding list_ex_first takeWhile_take ..
  also have "\<dots> \<longleftrightarrow> min f n < min (length l) n"
    unfolding length_take f_def ..
  also have "\<dots> \<longleftrightarrow> f < n \<and> f < length l"
    using le by arith
  finally show ?thesis unfolding f_def .
qed

lemma first_take:
  "length (takeWhile P (take n l)) = min n (length (takeWhile P l))"
  unfolding takeWhile_take length_take by (rule min.commute)

lemma first_after_insert:
  assumes "length wa \<le> length (takeWhile (\<lambda>v. \<not> qualifies b v) (wa @ wb))"
  shows "length (takeWhile (\<lambda>v. \<not> qualifies b v) (wa @ NaN # wb)) =
         Suc (length (takeWhile (\<lambda>v. \<not> qualifies b v) (wa @ wb)))"
proof -
  from prefix_all_pass[OF assms] have "\<forall>x \<in> set wa. \<not> qualifies b x" .
  then show ?thesis by (simp add: takeWhile_append2)
qed

lemma months_insert:
  assumes ex: "list_ex (qualifies b) (take 24 (wa @ wb))"
    and k: "k = length (takeWhile (\<lambda>v. \<not> qualifies b v) (take 24 (wa @ wb)))"
    and after: "length wa \<le> k"
  shows "(if list_ex (qualifies b) (take 24 (wa @ NaN # wb))
          then Months (length (takeWhile (\<lambda>v. \<not> qualifies b v) (take 24 (wa @ NaN # wb))))
          else Over24) = (if Suc k < 24 then Months (Suc k) else Over24)"
proof -
  let ?nq = "\<lambda>v. \<not> qualifies b v"
  define f where "f = length (takeWhile ?nq (wa @ wb))"
  define f' where "f' = length (takeWhile ?nq (wa @ NaN # wb))"
  from ex have f24: "f < 24" and flen: "f < length (wa @ wb)"
    unfolding list_ex_take f_def by blast+
  from k f24 have kf: "k = f"
    unfolding first_take f_def[symmetric] by simp
  from after have ins: "f' = Suc k"
    unfolding kf f_def f'_def by (rule first_after_insert)
  have len': "f' < length (wa @ NaN # wb)"
    using flen ins kf by simp
  have a: "list_ex (qualifies b) (take 24 (wa @ NaN # wb)) \<longleftrightarrow> Suc k < 24"
    unfolding list_ex_take f'_def[symmetric] using len' ins by blast
  have c: "length (takeWhile ?nq (take 24 (wa @ NaN # wb))) = min 24 (Suc k)"
    unfolding first_take f'_def[symmetric] ins ..
  show ?thesis
    unfolding a c by simp
qed

lemma spec_base_insert_NaN: "spec_base (a @ (t, NaN) # c) dt = spec_base (a @ c) dt"
  by (simp add: spec_base_def values_of_def notna_values_append)

section \<open>Claims about cycle detection\<close>

text \<open>C1. The cut months the code selects are the timestamps, from the second
  observation on, whose difference to the observation before is strictly below -0.05, in
  the order of the series. The loop emits a cut month exactly when it is the first one
  or lies more than 180 days after the cut month before it, and \<open>find_cut_cycles\<close>
  returns the final slice of that list. A run of cut months that starts a cycle (it is
  the first cut month, or more than 180 days after its predecessor) and whose members
  each lie at most 180 days after the one before contributes exactly one cycle start,
  its first cut month: the detected list is the starts of the cut months before the
  run, then the head of the run, then the starts among the later cut months.\<close>

theorem find_cut_cycles_characterised:
  "cut_months s = spec_cut_months s \<and>
   detected_cycles s = spec_cycles (spec_cut_months s) \<and>
   find_cut_cycles s n = slice_from (- n) (spec_cycles (spec_cut_months s)) \<and>
   (\<forall>earlier run later.
      spec_cut_months s = earlier @ run @ later \<and> run \<noteq> [] \<and>
      (earlier = [] \<or> hd run - last earlier > 180) \<and>
      (\<forall>i. Suc i < length run \<longrightarrow> run ! Suc i - run ! i \<le> 180)
      \<longrightarrow> detected_cycles s =
            spec_cycles earlier @ hd run # tl (spec_cycles (last run # later)))"
proof -
  have d: "detected_cycles s = spec_cycles (spec_cut_months s)"
    by (simp add: detected_cycles_def detected_spec cut_months_spec)
  have f: "find_cut_cycles s n = slice_from (- n) (spec_cycles (spec_cut_months s))"
    by (simp add: find_cut_cycles_slice d)
  have r: "detected_cycles s = spec_cycles earlier @ hd run # tl (spec_cycles (last run # later))"
    if "spec_cut_months s = earlier @ run @ later" "run \<noteq> []"
      "earlier = [] \<or> hd run - last earlier > 180"
      "\<forall>i. Suc i < length run \<longrightarrow> run ! Suc i - run ! i \<le> 180"
    for earlier run later
    unfolding detected_cycles_def
    by (rule detected_run) (use that in \<open>simp_all add: cut_months_spec\<close>)
  show ?thesis
    using d f r by (simp add: cut_months_spec)
qed

theorem find_cut_cycles_characterised_witness:
  "spec_cut_months rates_example = [31, 59, 90, 120] @ [400, 430] @ [700, 1000] \<and>
   hd [400, 430] - last [31, 59, 90, 120] > (180 :: int) \<and>
   detected_cycles rates_example =
     spec_cycles [31, 59, 90, 120] @ hd [400, 430] # tl (spec_cycles (last [400, 430] # [700, 1000])) \<and>
   detected_cycles rates_example = [31, 400, 700, 1000] \<and>
   find_cut_cycles rates_example 3 = [400, 700, 1000]"
proof -
  have cm: "spec_cut_months rates_example = [31, 59, 90, 120] @ [400, 430] @ [700, 1000]"
    by code_simp
  have gap: "hd [400, 430] - last [31, 59, 90, 120] > (180 :: int)"
    by simp
  have close: "\<forall>i. Suc i < length [400, 430 :: int] \<longrightarrow> [400, 430 :: int] ! Suc i - [400, 430] ! i \<le> 180"
    by simp
  have sc1: "spec_cycles [31, 59, 90, 120] = [31]" by code_simp
  have sc2: "spec_cycles (last [400, 430] # [700, 1000]) = [430, 700, 1000]" by code_simp
  have run: "detected_cycles rates_example =
     spec_cycles [31, 59, 90, 120] @ hd [400, 430] # tl (spec_cycles (last [400, 430] # [700, 1000]))"
    using find_cut_cycles_characterised[of rates_example 3] cm gap close by blast
  have all: "detected_cycles rates_example = [31, 400, 700, 1000]"
    unfolding run sc1 sc2 by simp
  have "find_cut_cycles rates_example 3 = slice_from (- 3) (spec_cycles (spec_cut_months rates_example))"
    using find_cut_cycles_characterised[of rates_example 3] by blast
  also have "\<dots> = [400, 700, 1000]" by code_simp
  finally show ?thesis using cm gap run all by blast
qed

text \<open>C4. For a rate series whose timestamps are in chronological order, the cycle
  starts that \<open>find_cut_cycles\<close> returns are strictly increasing, consecutive ones lie
  more than 180 days apart, and so does every other pair. The loop compares a cut month
  with the cut month before it, not with the last cycle start; the spacing follows
  because that predecessor is never earlier than the last cycle start.\<close>

theorem find_cut_cycles_spacing:
  "sorted (index s) \<Longrightarrow>
   sorted_wrt (<) (find_cut_cycles s n) \<and>
   (\<forall>i. Suc i < length (find_cut_cycles s n) \<longrightarrow>
        find_cut_cycles s n ! Suc i - find_cut_cycles s n ! i > 180) \<and>
   sorted_wrt (\<lambda>a b. b - a > 180) (find_cut_cycles s n)"
proof -
  assume chrono: "sorted (index s)"
  obtain k where k: "find_cut_cycles s n = drop k (detected_cycles s)"
    using slice_from_drop[of "- n" "detected_cycles s"] by (auto simp: find_cut_cycles_slice)
  have g: "sorted_wrt (\<lambda>a b. b - a > 180) (find_cut_cycles s n)"
    unfolding k by (rule sorted_wrt_drop) (rule detected_gaps[OF chrono])
  from g have "\<forall>i. Suc i < length (find_cut_cycles s n) \<longrightarrow>
        find_cut_cycles s n ! Suc i - find_cut_cycles s n ! i > 180"
    by (auto simp: sorted_wrt_iff_nth_less)
  with g gaps_increasing[OF g] show ?thesis by simp
qed

theorem find_cut_cycles_spacing_witness:
  "sorted (index rates_example) \<and>
   find_cut_cycles rates_example 3 = [400, 700, 1000] \<and>
   sorted_wrt (<) (find_cut_cycles rates_example 3) \<and>
   sorted_wrt (\<lambda>a b. b - a > 180) (find_cut_cycles rates_example 3)"
proof -
  have chrono: "sorted (index rates_example)"
    by (simp add: rates_example_def index_def)
  have res: "find_cut_cycles rates_example 3 = [400, 700, 1000]"
    by code_simp
  from find_cut_cycles_spacing[OF chrono, of 3] chrono res show ?thesis
    by simp
qed

text \<open>C5. For every \<open>n \<ge> 1\<close>, \<open>find_cut_cycles\<close> returns at most \<open>n\<close> cycle
  starts: the last \<open>n\<close> of the detected ones when more than \<open>n\<close> were detected, all of
  them otherwise. For a chronologically ordered series the result is strictly
  increasing and every detected start that was left out is earlier than every returned
  one, so the returned ones are the most recent.\<close>

theorem find_cut_cycles_most_recent:
  "1 \<le> n \<Longrightarrow>
   length (find_cut_cycles s n) \<le> nat n \<and>
   (nat n < length (detected_cycles s) \<longrightarrow>
      length (find_cut_cycles s n) = nat n \<and>
      find_cut_cycles s n = drop (length (detected_cycles s) - nat n) (detected_cycles s)) \<and>
   (length (detected_cycles s) \<le> nat n \<longrightarrow> find_cut_cycles s n = detected_cycles s) \<and>
   (sorted (index s) \<longrightarrow>
      sorted_wrt (<) (find_cut_cycles s n) \<and>
      (\<forall>x \<in> set (take (length (detected_cycles s) - nat n) (detected_cycles s)).
         \<forall>y \<in> set (find_cut_cycles s n). x < y))"
proof -
  assume n: "1 \<le> n"
  let ?d = "detected_cycles s" and ?k = "length (detected_cycles s) - nat n"
  have eq: "find_cut_cycles s n = drop ?k ?d"
    by (simp add: find_cut_cycles_slice slice_last_n[OF n])
  have len: "length (find_cut_cycles s n) \<le> nat n"
    unfolding eq by simp
  have more: "length (find_cut_cycles s n) = nat n" if "nat n < length ?d"
    unfolding eq using that by simp
  have fewer: "find_cut_cycles s n = ?d" if "length ?d \<le> nat n"
    unfolding eq using that by simp
  have order: "sorted_wrt (<) (find_cut_cycles s n) \<and>
      (\<forall>x \<in> set (take ?k ?d). \<forall>y \<in> set (find_cut_cycles s n). x < y)" if "sorted (index s)"
  proof -
    have "sorted_wrt (<) ?d"
      by (rule gaps_increasing) (rule detected_gaps[OF that])
    then have "sorted_wrt (<) (take ?k ?d @ drop ?k ?d)" by simp
    then show ?thesis unfolding eq sorted_wrt_append by blast
  qed
  show ?thesis using len more fewer order eq by blast
qed

theorem find_cut_cycles_most_recent_witness:
  "(1 :: int) \<le> 3 \<and> sorted (index rates_example) \<and>
   detected_cycles rates_example = [31, 400, 700, 1000] \<and>
   nat 3 < length (detected_cycles rates_example) \<and>
   length (find_cut_cycles rates_example 3) = nat 3 \<and>
   find_cut_cycles rates_example 3 = drop 1 [31, 400, 700, 1000] \<and>
   find_cut_cycles rates_example 5 = detected_cycles rates_example \<and>
   sorted_wrt (<) (find_cut_cycles rates_example 3)"
proof -
  have d: "detected_cycles rates_example = [31, 400, 700, 1000]" by code_simp
  have chrono: "sorted (index rates_example)"
    by (simp add: rates_example_def index_def)
  have three: "(1 :: int) \<le> 3" and five: "(1 :: int) \<le> 5" by simp_all
  show ?thesis
    using find_cut_cycles_most_recent[OF three, of rates_example]
      find_cut_cycles_most_recent[OF five, of rates_example] chrono
    by (simp add: d)
qed

text \<open>C7. A rate series with fewer than two observations has no difference left after
  \<open>dropna\<close> and yields no cycle; a series none of whose month-over-month differences
  is strictly below -0.05 yields no cycle; and the run stops with \<open>NoCycles\<close>, whatever
  the other series are, exactly when \<open>find_cut_cycles\<close> returns the empty list, so no lag
  or growth table is computed then.\<close>

theorem no_cycles_terminal:
  "(length s < 2 \<longrightarrow> dropna (diff s) = [] \<and> find_cut_cycles s n = []) \<and>
   ((\<forall>i. 1 \<le> i \<and> i < length s \<longrightarrow>
          \<not> flt (fsub (snd (s ! i)) (snd (s ! (i - 1)))) (- 0.05))
      \<longrightarrow> find_cut_cycles s n = []) \<and>
   (dashboard s mortgage dprime rsxfs pce = Inr NoCycles \<longleftrightarrow> find_cut_cycles s 3 = [])"
proof -
  have short: "dropna (diff s) = [] \<and> find_cut_cycles s n = []" if "length s < 2"
  proof -
    from that consider "s = []" | t v where "s = [(t, v)]"
      by (cases s; cases "tl s") auto
    then show ?thesis
      by cases (auto simp: dropna_def diff_def find_cut_cycles_def cut_months_def lt_mask_def
          select_def index_def fsub_NaN)
  qed
  have flat: "find_cut_cycles s n = []"
    if "\<forall>i. 1 \<le> i \<and> i < length s \<longrightarrow> \<not> flt (fsub (snd (s ! i)) (snd (s ! (i - 1)))) (- 0.05)"
  proof -
    have "spec_cut_months s = []"
      unfolding spec_cut_months_def using that by (auto simp: filter_empty_conv)
    then show ?thesis by (simp add: find_cut_cycles_def cut_months_spec)
  qed
  have stop: "dashboard s mortgage dprime rsxfs pce = Inr NoCycles \<longleftrightarrow> find_cut_cycles s 3 = []"
    by (auto simp: dashboard_def Let_def split: sum.splits)
  show ?thesis using short flat stop by blast
qed

theorem no_cycles_terminal_witness:
  "length [(0 :: int, Val 5)] < 2 \<and>
   find_cut_cycles [(0, Val 5)] 3 = [] \<and>
   find_cut_cycles [(0, Val 5), (31, Val 5), (59, Val 5.5), (90, Val 5.45)] 3 = [] \<and>
   lag_rows [400] [(31, Val 6), (0, Val 6)] [] = Inl ValueError \<and>
   dashboard [(0, Val 5), (31, Val 5), (59, Val 5.5), (90, Val 5.45)] [(31, Val 6), (0, Val 6)] [] [] [] = Inr NoCycles"
proof -
  let ?one = "[(0 :: int, Val 5)]"
  let ?flat = "[(0 :: int, Val 5), (31, Val 5), (59, Val 5.5), (90, Val 5.45)]"
  have short: "length ?one < 2" by simp
  have flat: "\<forall>i. 1 \<le> i \<and> i < length ?flat \<longrightarrow>
          \<not> flt (fsub (snd (?flat ! i)) (snd (?flat ! (i - 1)))) (- 0.05)"
    by (auto simp: less_Suc_eq numeral_eq_Suc)
  have raise: "lag_rows [400] [(31, Val 6), (0, Val 6)] [] = Inl ValueError"
    by code_simp
  have a: "find_cut_cycles ?one 3 = []"
    using no_cycles_terminal[of ?one 3] short by blast
  have b: "find_cut_cycles ?flat 3 = []"
    using no_cycles_terminal[of ?flat 3] flat by blast
  have c: "dashboard ?flat [(31, Val 6), (0, Val 6)] [] [] [] = Inr NoCycles"
    using no_cycles_terminal[of ?flat 3 "[(31, Val 6), (0, Val 6)]" "[]" "[]" "[]"] b by blast
  show ?thesis using short a b raise c by blast
qed

section \<open>Claims about the growth comparison\<close>

text \<open>C3. The growth cell of a series and a cycle start: with \<open>pre\<close> the observations
  whose timestamp lies in (cycle start - 12 months, cycle start] and \<open>post\<close> those in
  (cycle start, cycle start + 12 months], no row is produced when \<open>pre\<close> or \<open>post\<close> is
  empty or the mean of \<open>pre\<close> is exactly zero, and otherwise the row holds
  (mean post - mean pre) / mean pre * 100. A pre mean of 100 and a post mean of 110 give
  10 percent.\<close>

theorem growth_contract:
  "growth_cell s dt =
     Inr (if spec_pre s dt = [] \<or> spec_post s dt = [] \<or> mean (spec_pre s dt) = Val 0 then None
          else Some (percent_change (mean (spec_post s dt)) (mean (spec_pre s dt)))) \<and>
   (mean (spec_pre s dt) = Val 100 \<and> mean (spec_post s dt) = Val 110 \<longrightarrow>
      growth_cell s dt = Inr (Some (Val 10)))"
proof -
  have "growth_cell s dt = Inr (Some (Val 10))"
    if "mean (spec_pre s dt) = Val 100" "mean (spec_post s dt) = Val 110"
  proof -
    from that have "spec_pre s dt \<noteq> []" "spec_post s dt \<noteq> []"
      by (auto simp: mean_def values_of_def)
    with that show ?thesis by (simp add: growth_cell_spec)
  qed
  then show ?thesis using growth_cell_spec[of s dt] by blast
qed

theorem growth_contract_witness:
  "spec_pre growth_example 11323 = [(11292, Val 100), (11323, Val 100)] \<and>
   spec_post growth_example 11323 = [(11354, Val 105), (11688, Val 115)] \<and>
   mean (spec_pre growth_example 11323) = Val 100 \<and>
   mean (spec_post growth_example 11323) = Val 110 \<and>
   growth_cell growth_example 11323 = Inr (Some (Val 10))"
proof -
  have pre: "spec_pre growth_example 11323 = [(11292, Val 100), (11323, Val 100)]"
    by code_simp
  have post: "spec_post growth_example 11323 = [(11354, Val 105), (11688, Val 115)]"
    by code_simp
  have mpre: "mean (spec_pre growth_example 11323) = Val 100"
    unfolding pre by code_simp
  have mpost: "mean (spec_post growth_example 11323) = Val 110"
    unfolding post by code_simp
  from growth_contract[of growth_example 11323] mpre mpost pre post show ?thesis
    by blast
qed

text \<open>C6. The growth cell never ends in a division fault: the quotient is formed only
  when \<open>post\<close> and \<open>pre\<close> are non-empty and the mean of \<open>pre\<close> is not zero. With an
  empty pre window, or a pre mean of zero, no row is produced, also when the post window
  holds data.\<close>

theorem growth_division_guarded:
  "growth_cell s dt \<noteq> Inl e \<and>
   (spec_pre s dt = [] \<longrightarrow> growth_cell s dt = Inr None) \<and>
   (mean (spec_pre s dt) = Val 0 \<longrightarrow> growth_cell s dt = Inr None) \<and>
   (\<forall>r. growth_cell s dt = Inr (Some r) \<longrightarrow>
          spec_post s dt \<noteq> [] \<and> spec_pre s dt \<noteq> [] \<and> mean (spec_pre s dt) \<noteq> Val 0)"
  by (simp add: growth_cell_spec)

theorem growth_division_guarded_witness:
  "spec_post zero_base_example 11323 = [(11354, Val 105), (11688, Val 115)] \<and>
   mean (spec_pre zero_base_example 11323) = Val 0 \<and>
   fdiv (fsub (mean (spec_post zero_base_example 11323)) (mean (spec_pre zero_base_example 11323)))
        (mean (spec_pre zero_base_example 11323)) = Inl ZeroDivisionError \<and>
   growth_cell zero_base_example 11323 = Inr None \<and>
   spec_pre [(11354, Val 105)] 11323 = [] \<and>
   growth_cell [(11354, Val 105)] 11323 = Inr None \<and>
   growth_cell growth_example 11323 = Inr (Some (Val 10)) \<and>
   mean (spec_pre growth_example 11323) \<noteq> Val 0"
proof -
  have post: "spec_post zero_base_example 11323 = [(11354, Val 105), (11688, Val 115)]"
    by code_simp
  have mpre: "mean (spec_pre zero_base_example 11323) = Val 0"
    by code_simp
  have fault: "fdiv (fsub (mean (spec_post zero_base_example 11323)) (mean (spec_pre zero_base_example 11323)))
        (mean (spec_pre zero_base_example 11323)) = Inl ZeroDivisionError"
    unfolding mpre by simp
  have empty: "spec_pre [(11354, Val 105)] 11323 = []"
    by code_simp
  have ok: "growth_cell growth_example 11323 = Inr (Some (Val 10))"
    by code_simp
  from growth_division_guarded[of zero_base_example 11323]
    growth_division_guarded[of "[(11354, Val 105)]" 11323]
    growth_division_guarded[of growth_example 11323]
    post mpre fault empty ok
  show ?thesis by blast
qed

section \<open>Claims about the pass-through lag\<close>

text \<open>C2. The lag cell of a comparison series and a cycle start. An empty series adds no
  row. For a non-empty series in chronological order the cell is what the specification
  describes: the base is the last observed (non-missing) value at or before the cycle
  start, and with no such value the cell is the insufficient-data sentinel; otherwise the
  cell is the zero-based offset of the first of the up to 24 observations on or after the
  cycle start whose value minus base is at most -0.25, or the exceeds-window sentinel when
  none of them qualifies. A numeric lag is below 24. With base 6.5 and the window
  6.5, 6.4, 6.3, 6.2 the lag is 3.\<close>

theorem lag_contract:
  "(s = [] \<longrightarrow> lag_cell s dt = Inr None) \<and>
   (s \<noteq> [] \<and> sorted (index s) \<longrightarrow> lag_cell s dt = Inr (Some (spec_lag s dt))) \<and>
   (\<forall>j. lag_cell s dt = Inr (Some (Months j)) \<longrightarrow> j < 24) \<and>
   (s \<noteq> [] \<and> sorted (index s) \<and> spec_base s dt = Some 6.5 \<and>
      spec_window s dt = [Val 6.5, Val 6.4, Val 6.3, Val 6.2]
      \<longrightarrow> lag_cell s dt = Inr (Some (Months 3)))"
proof -
  have a: "s = [] \<longrightarrow> lag_cell s dt = Inr None"
    by (simp add: lag_cell_def)
  have b: "lag_cell s dt = Inr (Some (spec_lag s dt))" if "s \<noteq> []" "sorted (index s)"
    using that by (rule lag_cell_spec)
  have c: "\<forall>j. lag_cell s dt = Inr (Some (Months j)) \<longrightarrow> j < 24"
    using months_below_24 by blast
  have d: "lag_cell s dt = Inr (Some (Months 3))"
    if "s \<noteq> []" "sorted (index s)" "spec_base s dt = Some 6.5"
      "spec_window s dt = [Val 6.5, Val 6.4, Val 6.3, Val 6.2]"
  proof -
    have "spec_lag s dt = Months 3"
      using that(3,4) by (simp add: spec_lag_def)
    with b[OF that(1,2)] show ?thesis by simp
  qed
  show ?thesis using a b c d by blast
qed

theorem lag_contract_witness:
  "lag_example \<noteq> [] \<and> sorted (index lag_example) \<and>
   spec_base lag_example 0 = Some 6.5 \<and>
   spec_window lag_example 0 = [Val 6.5, Val 6.4, Val 6.3, Val 6.2] \<and>
   lag_cell lag_example 0 = Inr (Some (Months 3)) \<and>
   spec_base lag_example (- 5) = None \<and>
   lag_cell lag_example (- 5) = Inr (Some NotAvailable) \<and>
   lag_cell lag_example 59 = Inr (Some Over24) \<and>
   lag_cell [] 0 = Inr None"
proof -
  have ne: "lag_example \<noteq> []" by (simp add: lag_example_def)
  have chrono: "sorted (index lag_example)" by (simp add: lag_example_def index_def)
  have base: "spec_base lag_example 0 = Some 6.5" by code_simp
  have win: "spec_window lag_example 0 = [Val 6.5, Val 6.4, Val 6.3, Val 6.2]" by code_simp
  have none: "spec_base lag_example (- 5) = None" by code_simp
  have na: "spec_lag lag_example (- 5) = NotAvailable" by code_simp
  have over: "spec_lag lag_example 59 = Over24" by code_simp
  have three: "lag_cell lag_example 0 = Inr (Some (Months 3))"
    using lag_contract[of lag_example 0] ne chrono base win by blast
  have absent: "lag_cell lag_example (- 5) = Inr (Some NotAvailable)"
    using lag_contract[of lag_example "- 5"] ne chrono na by simp
  have beyond: "lag_cell lag_example 59 = Inr (Some Over24)"
    using lag_contract[of lag_example 59] ne chrono over by simp
  have skipped: "lag_cell [] 0 = Inr None"
    using lag_contract[of "[]" 0] by blast
  from ne chrono base win three none absent beyond skipped show ?thesis
    by blast
qed

text \<open>C9. When the timestamps of the series are strictly increasing and one of them is
  the cycle start, the lag cell is never the numeric lag 0, so a numeric lag is at least
  1: a present observation at the cycle start is the base that \<open>asof\<close> returns, so the
  offset-0 candidate differs from the base by exactly 0, and a missing one is never
  selected.\<close>

theorem lag_never_zero_at_observation:
  "sorted_wrt (<) (index s) \<Longrightarrow> dt \<in> set (index s) \<Longrightarrow>
   lag_cell s dt \<noteq> Inr (Some (Months 0)) \<and>
   (\<forall>j. lag_cell s dt = Inr (Some (Months j)) \<longrightarrow> 1 \<le> j) \<and>
   (\<forall>v. (dt, Val v) \<in> set s \<longrightarrow> asof s dt = Inr (Val v))"
proof -
  assume strict: "sorted_wrt (<) (index s)" and at: "dt \<in> set (index s)"
  from at obtain x where mem: "(dt, x) \<in> set s" by (auto simp: index_def)
  then have ne: "s \<noteq> []" by auto
  have chrono: "sorted (index s)" by (rule strict_sorted_index[OF strict])
  have eq: "lag_cell s dt = Inr (Some (spec_lag s dt))"
    by (rule lag_cell_spec[OF ne chrono])
  from strict_split[OF strict mem] obtain after where
    f: "filter (\<lambda>(t, v). dt \<le> t) s = (dt, x) # after" by blast
  have win: "spec_window s dt = x # take 23 (values_of after)"
    by (simp add: spec_window_def values_of_def f)
  have nz: "spec_lag s dt \<noteq> Months 0"
  proof
    assume "spec_lag s dt = Months 0"
    from spec_lag_zero[OF this] win obtain b where
      b: "spec_base s dt = Some b" and q: "qualifies b x" by auto
    from q obtain v where x: "x = Val v" by (cases x) auto
    from base_at_observation[OF strict mem[unfolded x]] b have "b = v" by simp
    with q x show False by simp
  qed
  have asof_at: "asof s dt = Inr (Val v)" if "(dt, Val v) \<in> set s" for v
    using asof_spec[OF ne chrono, of dt] base_at_observation[OF strict that] by simp
  from nz eq have "lag_cell s dt \<noteq> Inr (Some (Months 0))" by simp
  moreover from this have "\<forall>j. lag_cell s dt = Inr (Some (Months j)) \<longrightarrow> 1 \<le> j"
    by (auto simp: Suc_le_eq intro: gr0I)
  ultimately show ?thesis using asof_at by blast
qed

theorem lag_never_zero_at_observation_witness:
  "sorted_wrt (<) (index lag_example) \<and> 0 \<in> set (index lag_example) \<and>
   (0, Val 6.5) \<in> set lag_example \<and>
   asof lag_example 0 = Inr (Val 6.5) \<and>
   lag_cell lag_example 0 = Inr (Some (Months 3)) \<and>
   lag_cell lag_example 0 \<noteq> Inr (Some (Months 0))"
proof -
  have strict: "sorted_wrt (<) (index lag_example)"
    by (simp add: lag_example_def index_def)
  have at: "0 \<in> set (index lag_example)"
    by (simp add: lag_example_def index_def)
  have mem: "(0, Val 6.5) \<in> set lag_example"
    by (simp add: lag_example_def)
  have three: "lag_cell lag_example 0 = Inr (Some (Months 3))"
    by code_simp
  from lag_never_zero_at_observation[OF strict at] mem three strict at show ?thesis
    by blast
qed

text \<open>C10. A numeric lag always points at a present value of the window
  \<^verbatim>\<open>post.values\<close>, never at a missing one; and the lag counts positions of the window,
  missing ones included: putting a missing observation on or after the cycle start in
  front of the first qualifying observation raises the lag by one (or pushes it out of the
  24-observation window).\<close>

theorem lag_counts_missing_observations:
  "(\<forall>j. lag_cell s dt = Inr (Some (Months j)) \<longrightarrow>
        j < length (values_of (head 24 (select s (index_ge s dt)))) \<and>
        (\<exists>x. values_of (head 24 (select s (index_ge s dt))) ! j = Val x)) \<and>
   (sorted (index (a @ (t, NaN) # c)) \<and> dt \<le> t \<and>
    lag_cell (a @ c) dt = Inr (Some (Months k)) \<and>
    length (filter (\<lambda>(u, v). dt \<le> u) a) \<le> k
    \<longrightarrow> lag_cell (a @ (t, NaN) # c) dt =
          Inr (Some (if Suc k < 24 then Months (Suc k) else Over24)))"
proof -
  have present: "j < length (values_of (head 24 (select s (index_ge s dt)))) \<and>
        (\<exists>x. values_of (head 24 (select s (index_ge s dt))) ! j = Val x)"
    if "lag_cell s dt = Inr (Some (Months j))" for j
  proof -
    from lag_cell_months[OF that] obtain base where
      n: "next_index (spec_window s dt) base 0 = Some j" by blast
    from next_index_range[OF n] next_index_present[OF n]
    have "j < length (spec_window s dt)" "\<not> isna (spec_window s dt ! j)" by simp_all
    then show ?thesis
      unfolding post_values by (cases "spec_window s dt ! j") auto
  qed
  have shifted: "lag_cell (a @ (t, NaN) # c) dt =
          Inr (Some (if Suc k < 24 then Months (Suc k) else Over24))"
    if chrono': "sorted (index (a @ (t, NaN) # c))" and ge: "dt \<le> t"
      and lag: "lag_cell (a @ c) dt = Inr (Some (Months k))"
      and after: "length (filter (\<lambda>(u, v). dt \<le> u) a) \<le> k"
  proof -
    let ?wa = "values_of (filter (\<lambda>(u, v). dt \<le> u) a)"
    let ?wc = "values_of (filter (\<lambda>(u, v). dt \<le> u) c)"
    from lag have ne: "a @ c \<noteq> []" by (auto simp: lag_cell_def)
    from chrono' have chrono: "sorted (index (a @ c))"
      by (auto simp: index_def sorted_append)
    from lag lag_cell_spec[OF ne chrono, of dt] have sl: "spec_lag (a @ c) dt = Months k" by simp
    then obtain b where b: "spec_base (a @ c) dt = Some b"
      by (auto simp: spec_lag_def split: option.splits)
    have win: "spec_window (a @ c) dt = take 24 (?wa @ ?wc)"
      by (simp add: spec_window_def values_of_def)
    have win': "spec_window (a @ (t, NaN) # c) dt = take 24 (?wa @ NaN # ?wc)"
      using ge by (simp add: spec_window_def values_of_def)
    from sl b have ex: "list_ex (qualifies b) (take 24 (?wa @ ?wc))"
      and k: "k = length (takeWhile (\<lambda>v. \<not> qualifies b v) (take 24 (?wa @ ?wc)))"
      unfolding win[symmetric] by (auto simp: spec_lag_def split: if_splits)
    have len: "length ?wa \<le> k" using after by (simp add: values_of_def)
    have "spec_lag (a @ (t, NaN) # c) dt = (if Suc k < 24 then Months (Suc k) else Over24)"
      unfolding spec_lag_def spec_base_insert_NaN b win' option.case
      by (rule months_insert[OF ex k len])
    moreover have "lag_cell (a @ (t, NaN) # c) dt = Inr (Some (spec_lag (a @ (t, NaN) # c) dt))"
      by (rule lag_cell_spec[OF _ chrono']) simp
    ultimately show ?thesis by simp
  qed
  show ?thesis using present shifted by blast
qed

theorem lag_counts_missing_observations_witness:
  "sorted (index ([(0, Val 6.5), (31, Val 6.4)] @ (45, NaN) # [(59, Val 6.3), (90, Val 6.2)])) \<and>
   (0 :: int) \<le> 45 \<and>
   lag_cell ([(0, Val 6.5), (31, Val 6.4)] @ [(59, Val 6.3), (90, Val 6.2)]) 0 = Inr (Some (Months 3)) \<and>
   length (filter (\<lambda>(u, v). 0 \<le> u) [(0 :: int, Val 6.5), (31, Val 6.4)]) \<le> 3 \<and>
   lag_cell ([(0, Val 6.5), (31, Val 6.4)] @ (45, NaN) # [(59, Val 6.3), (90, Val 6.2)]) 0 =
     Inr (Some (Months 4)) \<and>
   values_of (head 24 (select [(0, Val 6.5), (31, Val 6.4), (45, NaN), (59, Val 6.3), (90, Val 6.2)]
        (index_ge [(0, Val 6.5), (31, Val 6.4), (45, NaN), (59, Val 6.3), (90, Val 6.2)] 0))) ! 4 = Val 6.2"
proof -
  let ?a = "[(0 :: int, Val 6.5), (31, Val 6.4)]"
  let ?c = "[(59 :: int, Val 6.3), (90, Val 6.2)]"
  have chrono: "sorted (index (?a @ (45, NaN) # ?c))" by (simp add: index_def)
  have ge: "(0 :: int) \<le> 45" by simp
  have lag: "lag_cell (?a @ ?c) 0 = Inr (Some (Months 3))" by code_simp
  have len: "length (filter (\<lambda>(u, v). 0 \<le> u) ?a) \<le> 3" by simp
  have four: "lag_cell (?a @ (45, NaN) # ?c) 0 = Inr (Some (Months 4))"
    using lag_counts_missing_observations[where a = ?a and t = 45 and c = ?c and dt = 0 and k = 3] chrono ge lag len
    by simp
  have sel: "values_of (head 24 (select [(0, Val 6.5), (31, Val 6.4), (45, NaN), (59, Val 6.3), (90, Val 6.2)]
        (index_ge [(0, Val 6.5), (31, Val 6.4), (45, NaN), (59, Val 6.3), (90, Val 6.2)] 0))) ! 4 = Val 6.2"
    by code_simp
  from chrono ge lag len four sel show ?thesis by blast
qed

end
